theory Spec2Isabelle
  imports Main "HOL-Library.Multiset" "HOL-Library.Sublist"
begin

section \<open>Strings, as \<open>content.js\<close> uses them\<close>

text \<open>
  \<open>String.prototype.includes\<close>: \<open>str_includes s sub\<close> holds when \<open>sub\<close> occurs in \<open>s\<close>.
  \<open>startsWith s p\<close> is the test at the current position.
\<close>

fun startsWith :: "string \<Rightarrow> string \<Rightarrow> bool" where
  "startsWith s [] = True"
| "startsWith [] (p # ps) = False"
| "startsWith (c # cs) (p # ps) = (c = p \<and> startsWith cs ps)"

fun str_includes :: "string \<Rightarrow> string \<Rightarrow> bool" where
  "str_includes [] sub = (sub = [])"
| "str_includes (c # cs) sub = (startsWith (c # cs) sub \<or> str_includes cs sub)"

text \<open>The regular expression class \<open>\d\<close> is the ten ASCII digits.\<close>

definition isDigit :: "char \<Rightarrow> bool" where
  "isDigit c = (c \<in> set ''0123456789'')"

definition digitVal :: "char \<Rightarrow> nat" where
  "digitVal c = of_char c - 48"

text \<open>
  \<open>parseInt\<close> on a string of decimal digits (the only strings \<open>extractPRNumber\<close> gives it).
  The value is the exact natural number: pull-request numbers are far below \<open>2^53\<close>, where
  the JavaScript number would start to round.
\<close>

definition parseInt :: "string \<Rightarrow> nat" where
  "parseInt ds = foldl (\<lambda>a c. 10 * a + digitVal c) 0 ds"

text \<open>
  \<open>href.match(/\/pull\/(\d+)/)\<close>: the leftmost position where \<open>/pull/\<close> is followed by at
  least one digit; the capture group is the longest run of digits there.
\<close>

fun matchPull :: "string \<Rightarrow> string option" where
  "matchPull [] = None"
| "matchPull (c # cs) =
     (if startsWith (c # cs) ''/pull/'' \<and> takeWhile isDigit (drop 6 (c # cs)) \<noteq> []
      then Some (takeWhile isDigit (drop 6 (c # cs)))
      else matchPull cs)"

text \<open>
  \<open>extractPRNumber(prElement)\<close>. The argument is the \<open>href\<close> of the anchor, \<open>None\<close> when
  the element is \<open>null\<close> (\<open>querySelector\<close> found no link); an empty \<open>href\<close> is falsy.
\<close>

fun extractPRNumber :: "string option \<Rightarrow> nat option" where
  "extractPRNumber None = None"
| "extractPRNumber (Some href) =
     (if href = [] then None
      else (case matchPull href of Some ds \<Rightarrow> Some (parseInt ds) | None \<Rightarrow> None))"

section \<open>The classifier\<close>

definition newContributorStatuses :: "string list" where
  "newContributorStatuses = [''FIRST_TIMER'', ''FIRST_TIME_CONTRIBUTOR'', ''NONE'']"

definition getContributorPriority :: "string \<Rightarrow> int" where
  "getContributorPriority authorAssociation =
     (if authorAssociation \<in> set newContributorStatuses then 1 else 2)"

section \<open>Identifier extraction in \<open>fetchPRData\<close>\<close>

text \<open>
  \<open>this.githubToken ? 50 : 10\<close>. The token is \<open>null\<close> or a string; the empty string is
  falsy.
\<close>

definition tokenPresent :: "string option \<Rightarrow> bool" where
  "tokenPresent tok = (case tok of None \<Rightarrow> False | Some s \<Rightarrow> s \<noteq> [])"

definition maxPRs :: "string option \<Rightarrow> nat" where
  "maxPRs tok = (if tokenPresent tok then 50 else 10)"

text \<open>\<open>.filter(num => num)\<close> drops \<open>null\<close> and the falsy number \<open>0\<close>.\<close>

fun truthyNumber :: "nat option \<Rightarrow> nat list" where
  "truthyNumber None = []"
| "truthyNumber (Some n) = (if n = 0 then [] else [n])"

text \<open>
  \<open>allPRNumbers\<close>: the anchors \<open>a[href*="/pull/"]\<close> of the page, given by their \<open>href\<close>s in
  document order, cut to \<open>maxPRs\<close> elements, mapped through \<open>extractPRNumber\<close> and filtered.
\<close>

definition allPRNumbers :: "string option \<Rightarrow> string list \<Rightarrow> nat list" where
  "allPRNumbers tok prElements =
     concat (map truthyNumber
       (map (\<lambda>el. extractPRNumber (Some el)) (take (maxPRs tok) prElements)))"

text \<open>The identifier a single raw reference embeds, if any (zero does not count).\<close>

definition identifierOf :: "string \<Rightarrow> nat option" where
  "identifierOf ref =
     (case extractPRNumber (Some ref) of
        None \<Rightarrow> None
      | Some n \<Rightarrow> if n = 0 then None else Some n)"

section \<open>\<open>Array.prototype.sort\<close>\<close>

text \<open>
  A comparison function returns a number; only its sign counts.
\<close>

type_synonym 'a comparefn = "'a \<Rightarrow> 'a \<Rightarrow> int"

text \<open>
  \<open>array.sort(comparefn)\<close> is the host's. ECMAScript fixes its result only when the
  comparison function is consistent on the elements, and then (since ES2019) the result is the
  stable sorted arrangement. \<open>arraySort\<close> is the stable insertion sort: an element goes in front
  of the later elements it does not compare greater than. It is the model wherever the code
  sorts with a comparison function that follows an integer key (\<open>restoreDefaultOrder\<close>,
  \<open>saveCacheToStorage\<close>).
\<close>

fun insertSorted :: "'a comparefn \<Rightarrow> 'a \<Rightarrow> 'a list \<Rightarrow> 'a list" where
  "insertSorted cmp x [] = [x]"
| "insertSorted cmp x (y # ys) =
     (if cmp x y \<le> 0 then x # y # ys else y # insertSorted cmp x ys)"

definition arraySort :: "'a comparefn \<Rightarrow> 'a list \<Rightarrow> 'a list" where
  "arraySort cmp xs = foldr (insertSorted cmp) xs []"

text \<open>
  The comparison function of \<open>applySorting\<close> is not consistent when a record is missing (it
  answers 0 for a pair with a missing record and non-zero for two records of different tiers),
  and then the order is the engine's choice. So \<open>applySorting\<close> takes the host's sort as a
  parameter, and \<open>conformingSort\<close> is what ECMAScript promises of it: the result is always a
  rearrangement of the array, and for a comparison function that follows an integer key \<open>k\<close> on
  the elements (\<open>keyedBy\<close>) it is the stable sort by \<open>k\<close>.
\<close>

definition keyedBy :: "'a comparefn \<Rightarrow> ('a \<Rightarrow> int) \<Rightarrow> 'a list \<Rightarrow> bool" where
  "keyedBy cmp k xs = (\<forall>a \<in> set xs. \<forall>b \<in> set xs. sgn (cmp a b) = sgn (k a - k b))"

definition conformingSort :: "('a comparefn \<Rightarrow> 'a list \<Rightarrow> 'a list) \<Rightarrow> bool" where
  "conformingSort srt =
     ((\<forall>cmp xs. mset (srt cmp xs) = mset xs) \<and>
      (\<forall>cmp k xs. keyedBy cmp k xs \<longrightarrow> srt cmp xs = sort_key k xs))"

text \<open>
  A second stable sort, the top-down merge sort, for comparison with \<open>arraySort\<close>.
\<close>

fun mergeBy :: "'a comparefn \<Rightarrow> 'a list \<Rightarrow> 'a list \<Rightarrow> 'a list" where
  "mergeBy cmp [] ys = ys"
| "mergeBy cmp (x # xs) [] = x # xs"
| "mergeBy cmp (x # xs) (y # ys) =
     (if cmp x y \<le> 0 then x # mergeBy cmp xs (y # ys) else y # mergeBy cmp (x # xs) ys)"

fun mergeSort :: "'a comparefn \<Rightarrow> 'a list \<Rightarrow> 'a list" where
  "mergeSort cmp xs =
     (if length xs \<le> 1 then xs
      else mergeBy cmp (mergeSort cmp (take (length xs div 2) xs))
                       (mergeSort cmp (drop (length xs div 2) xs)))"

declare mergeSort.simps [simp del]

section \<open>Records, cache entries and the page\<close>

text \<open>
  The object stored per pull request: \<open>{number, author_association, created_at, user}\<close>. The
  timestamp string and the author object are opaque here.
\<close>

record pr_record =
  number :: nat
  author_association :: string
  created_at :: string
  user :: string

text \<open>A cache entry \<open>{data, timestamp}\<close>; the timestamp is a \<open>Date.now()\<close> reading in ms.\<close>

record cache_entry =
  data :: pr_record
  timestamp :: int

text \<open>
  A row of the listing (an element matching \<open>.js-navigation-item, .js-issue-row\<close>): the node's
  identity, the \<open>href\<close> of its first \<open>a[href*="/pull/"]\<close> descendant (\<open>None\<close> when
  \<open>querySelector\<close> gives \<open>null\<close>) and its \<open>data-original-index\<close> attribute. The attribute
  is written as \<open>index.toString()\<close> and read back with \<open>parseInt\<close>; the model keeps the number.
\<close>

record element =
  elemId :: nat
  pullLink :: "string option"
  originalIndex :: "nat option"

text \<open>
  The listing container: whether it has the attribute \<open>data-original-order\<close>, and its rows in
  document order. \<open>appendChild\<close> of every row in a new sequence leaves the rows in that
  sequence.
\<close>

record container =
  originalOrder :: bool
  rows :: "element list"

text \<open>The remote requests the code issues, in a log.\<close>

datatype request = RestRequest nat | GraphQLRequest "nat list"

text \<open>
  The \<open>PRSorter\<close> instance (\<open>prData\<close>, \<open>sortOrder\<close>, \<open>githubToken\<close>, \<open>cache\<close>), the page
  (\<open>window.location.href\<close>, the \<open>href\<close>s of the anchors \<open>a[href*="/pull/"]\<close> in document order,
  the listing container if \<open>querySelector\<close> finds one) and the host (the reading of
  \<open>Date.now()\<close>, whether \<open>chrome.storage\<close> is defined, the two keys the script writes in
  \<open>chrome.storage.local\<close>, and the log of remote requests).
  The cache is a JavaScript \<open>Map\<close>: a list of pairs with distinct keys in insertion order.
\<close>

record world =
  prData :: "nat \<rightharpoonup> pr_record"
  sortOrder :: string
  githubToken :: "string option"
  cache :: "(nat \<times> cache_entry) list"
  locationHref :: string
  pullAnchors :: "string list"
  prContainer :: "container option"
  now :: int
  chromeStorage :: bool
  storedSortOrder :: "string option"
  storedCache :: "(nat \<times> cache_entry) list option"
  requests :: "request list"

section \<open>The orderer\<close>

text \<open>\<open>forEach((el, index) => el.setAttribute('data-original-index', index.toString()))\<close>\<close>

fun stampFrom :: "nat \<Rightarrow> element list \<Rightarrow> element list" where
  "stampFrom i [] = []"
| "stampFrom i (el # els) = el\<lparr>originalIndex := Some i\<rparr> # stampFrom (Suc i) els"

text \<open>
  \<open>this.prData.get(this.extractPRNumber(a.querySelector('a[href*="/pull/"]')))\<close>; the map has
  no entry for \<open>null\<close>.
\<close>

definition rowData :: "(nat \<rightharpoonup> pr_record) \<Rightarrow> element \<Rightarrow> pr_record option" where
  "rowData pd el = (case extractPRNumber (pullLink el) of None \<Rightarrow> None | Some n \<Rightarrow> pd n)"

text \<open>The comparison function of \<open>applySorting\<close>.\<close>

definition sortCompare :: "(nat \<rightharpoonup> pr_record) \<Rightarrow> string \<Rightarrow> element comparefn" where
  "sortCompare pd order a b =
     (case rowData pd a of
        None \<Rightarrow> 0
      | Some dataA \<Rightarrow>
          (case rowData pd b of
             None \<Rightarrow> 0
           | Some dataB \<Rightarrow>
               (let priorityA = getContributorPriority (author_association dataA);
                    priorityB = getContributorPriority (author_association dataB)
                in if order = ''new-first'' then priorityA - priorityB
                   else priorityB - priorityA)))"

text \<open>
  \<open>applySorting()\<close>, with the host's sort as \<open>srt\<close>. The badges it adds at the end are
  rendering and are left out.
\<close>

definition applySorting ::
  "(element comparefn \<Rightarrow> element list \<Rightarrow> element list) \<Rightarrow> world \<Rightarrow> world" where
  "applySorting srt w =
     (case prContainer w of
        None \<Rightarrow> w
      | Some c \<Rightarrow>
          if rows c = [] then w
          else
            (let c1 = (if \<not> originalOrder c
                       then c\<lparr>originalOrder := True, rows := stampFrom 0 (rows c)\<rparr>
                       else c);
                 sortedElements = srt (sortCompare (prData w) (sortOrder w)) (rows c1)
             in w\<lparr>prContainer := Some (c1\<lparr>rows := sortedElements\<rparr>)\<rparr>))"

text \<open>\<open>parseInt(a.getAttribute('data-original-index') || '0')\<close>\<close>

definition indexOf :: "element \<Rightarrow> int" where
  "indexOf el = (case originalIndex el of None \<Rightarrow> 0 | Some i \<Rightarrow> int i)"

definition restoreCompare :: "element comparefn" where
  "restoreCompare a b = indexOf a - indexOf b"

definition restoreDefaultOrder :: "world \<Rightarrow> world" where
  "restoreDefaultOrder w =
     (case prContainer w of
        None \<Rightarrow> w
      | Some c \<Rightarrow> w\<lparr>prContainer := Some (c\<lparr>rows := arraySort restoreCompare (rows c)\<rparr>)\<rparr>)"

text \<open>The rows on display, none when there is no container.\<close>

definition displayed :: "world \<Rightarrow> element list" where
  "displayed w = (case prContainer w of None \<Rightarrow> [] | Some c \<Rightarrow> rows c)"


text \<open>The rows \<open>applySorting\<close> hands to the sort: stamped first when the container is new.\<close>

definition rowsToSort :: "container \<Rightarrow> element list" where
  "rowsToSort c = (if originalOrder c then rows c else stampFrom 0 (rows c))"


section \<open>The cache store\<close>

text \<open>\<open>Map.prototype.set\<close> keeps the place of a key that is there and appends a new one.\<close>

fun mapSet :: "'k \<Rightarrow> 'v \<Rightarrow> ('k \<times> 'v) list \<Rightarrow> ('k \<times> 'v) list" where
  "mapSet k v [] = [(k, v)]"
| "mapSet k v (p # m) = (if fst p = k then (k, v) # m else p # mapSet k v m)"

definition mapDelete :: "'k \<Rightarrow> ('k \<times> 'v) list \<Rightarrow> ('k \<times> 'v) list" where
  "mapDelete k m = filter (\<lambda>p. fst p \<noteq> k) m"

definition cacheExpiry :: int where
  "cacheExpiry = 30 * 60 * 1000"

text \<open>\<open>(a, b) => b[1].timestamp - a[1].timestamp\<close>\<close>

definition recentFirst :: "(nat \<times> cache_entry) comparefn" where
  "recentFirst a b = timestamp (snd b) - timestamp (snd a)"

text \<open>
  \<open>saveCacheToStorage()\<close>. The snapshot written to \<open>chrome.storage.local\<close> is the entry list
  (\<open>JSON.stringify\<close> of it in the code).
\<close>

definition saveCacheToStorage :: "world \<Rightarrow> world" where
  "saveCacheToStorage w =
     (if chromeStorage w then
        (let entries = cache w in
         if length entries > 200 then
           (let kept = take 150 (arraySort recentFirst entries)
            in w\<lparr>cache := kept, storedCache := Some kept\<rparr>)
         else w\<lparr>storedCache := Some entries\<rparr>)
      else w)"

text \<open>\<open>getFromCache(prNumber)\<close>: the record or \<open>null\<close>, and the world after the call.\<close>

definition getFromCache :: "world \<Rightarrow> nat \<Rightarrow> pr_record option \<times> world" where
  "getFromCache w prNumber =
     (case map_of (cache w) prNumber of
        None \<Rightarrow> (None, w)
      | Some cached \<Rightarrow>
          if now w - timestamp cached < cacheExpiry then (Some (data cached), w)
          else (None, saveCacheToStorage (w\<lparr>cache := mapDelete prNumber (cache w)\<rparr>)))"

definition setCache :: "world \<Rightarrow> nat \<Rightarrow> pr_record \<Rightarrow> world" where
  "setCache w prNumber d =
     saveCacheToStorage
       (w\<lparr>cache := mapSet prNumber \<lparr>data = d, timestamp = now w\<rparr> (cache w)\<rparr>)"

text \<open>
  \<open>clearExpiredCache()\<close>. Deleting from a \<open>Map\<close> while iterating over it visits every
  remaining entry once, so the loop is a filter.
\<close>

definition clearExpiredCache :: "world \<Rightarrow> world" where
  "clearExpiredCache w =
     (let kept = filter (\<lambda>p. \<not> (now w - timestamp (snd p) \<ge> cacheExpiry)) (cache w);
          deletedCount = length (cache w) - length kept
      in if deletedCount > 0 then saveCacheToStorage (w\<lparr>cache := kept\<rparr>) else w)"

text \<open>
  A sequence of \<open>put\<close> operations, each with the clock reading at which it happens.
\<close>

fun putAll :: "world \<Rightarrow> (int \<times> nat \<times> pr_record) list \<Rightarrow> world" where
  "putAll w [] = w"
| "putAll w ((t, prNumber, d) # ps) = putAll (setCache (w\<lparr>now := t\<rparr>) prNumber d) ps"

section \<open>The remote fetcher\<close>

text \<open>
  What \<open>await fetch(...)\<close> and \<open>await response.json()\<close> can give: \<open>fetch\<close> rejects with an
  error message, or resolves to a response with a status, a status text and a body whose
  parsing fails with a message or gives a value.
\<close>

datatype 'a json = JsonError string | Json 'a

datatype 'a fetched = Rejected string | Response nat string "'a json"

record rest_data =
  rest_author_association :: string
  rest_created_at :: string
  rest_user :: string

record gql_node =
  node_number :: nat
  authorAssociation :: string
  createdAt :: string
  author :: string

text \<open>
  The GraphQL result: \<open>result.errors\<close> (its JSON text when truthy) and \<open>result.data.repository\<close>,
  whose keys \<open>pr0\<close>, \<open>pr1\<close>, ... are given by their index. Reading \<open>.repository\<close> of a missing
  \<open>data\<close>, or a key of a \<open>null\<close> repository, throws a \<open>TypeError\<close>.
\<close>

datatype gql_data = NoData | NoRepository | Repository "nat \<Rightarrow> gql_node option"

record gql_result =
  errors :: "string option"
  gqlData :: gql_data

text \<open>
  The remote side: the answer to a REST request for a pull request and to a GraphQL request for
  a list of them, each possibly depending on the requests made so far, and the milliseconds that
  pass while the script awaits the answer.
\<close>

record remote =
  restApi :: "request list \<Rightarrow> nat \<Rightarrow> rest_data fetched"
  graphqlApi :: "request list \<Rightarrow> nat list \<Rightarrow> gql_result fetched"
  restLatency :: "nat \<Rightarrow> int"
  graphqlLatency :: "nat list \<Rightarrow> int"

text \<open>Number to string, as \<open>+\<close> on a string and a number does.\<close>

fun showNat :: "nat \<Rightarrow> string" where
  "showNat n =
     (if n < 10 then [char_of (48 + n)]
      else showNat (n div 10) @ [char_of (48 + n mod 10)])"

declare showNat.simps [simp del]

text \<open>\<open>response.ok\<close>\<close>

definition ok :: "nat \<Rightarrow> bool" where
  "ok status = (200 \<le> status \<and> status \<le> 299)"

definition rateLimitDetail :: string where
  "rateLimitDetail =
     ''GitHub API rate limit exceeded (403). Add a GitHub token for unlimited requests.''"

definition rateLimitExceeded :: string where
  "rateLimitExceeded =
     ''GitHub API rate limit exceeded. Please add a GitHub token for unlimited requests.''"

text \<open>
  \<open>fetchPRDetails(prNumber)\<close>: \<open>Inl\<close> the message of the error thrown, \<open>Inr\<close> the record.
\<close>

definition fetchPRDetails :: "remote \<Rightarrow> world \<Rightarrow> nat \<Rightarrow> (string + pr_record) \<times> world" where
  "fetchPRDetails env w prNumber =
     (let w1 = w\<lparr>requests := requests w @ [RestRequest prNumber],
                 now := now w + restLatency env prNumber\<rparr>
      in case restApi env (requests w) prNumber of
           Rejected msg \<Rightarrow> (Inl msg, w1)
         | Response status statusText body \<Rightarrow>
             if \<not> ok status then
               (if status = 403 then (Inl rateLimitDetail, w1)
                else (Inl (''GitHub API error: '' @ showNat status @ '' - '' @ statusText), w1))
             else
               (case body of
                  JsonError msg \<Rightarrow> (Inl msg, w1)
                | Json d \<Rightarrow>
                    (Inr \<lparr>number = prNumber,
                          author_association = rest_author_association d,
                          created_at = rest_created_at d,
                          user = rest_user d\<rparr>, w1)))"

text \<open>
  \<open>fetchPRDataREST(prNumbers)\<close>: the loop, with its \<open>try\<close>/\<open>catch\<close> per pull request. The
  \<open>catch\<close> rethrows when the message contains \<open>403\<close> and otherwise goes on.
\<close>

fun fetchPRDataREST :: "remote \<Rightarrow> world \<Rightarrow> nat list \<Rightarrow> (string + unit) \<times> world" where
  "fetchPRDataREST env w [] = (Inr (), w)"
| "fetchPRDataREST env w (prNumber # rest) =
     (case getFromCache w prNumber of
        (Some cached, w1) \<Rightarrow>
          fetchPRDataREST env (w1\<lparr>prData := (prData w1)(prNumber \<mapsto> cached)\<rparr>) rest
      | (None, w1) \<Rightarrow>
          (case fetchPRDetails env w1 prNumber of
             (Inr d, w2) \<Rightarrow>
               (let w3 = setCache (w2\<lparr>prData := (prData w2)(prNumber \<mapsto> d)\<rparr>) prNumber d;
                    w4 = (if \<not> tokenPresent (githubToken w3) then w3\<lparr>now := now w3 + 500\<rparr>
                          else w3)
                in fetchPRDataREST env w4 rest)
           | (Inl msg, w2) \<Rightarrow>
               if str_includes msg ''403'' then (Inl rateLimitExceeded, w2)
               else fetchPRDataREST env w2 rest))"

text \<open>The \<open>forEach\<close> over the sub-results of a GraphQL answer, from index \<open>i\<close> on.\<close>

fun processResults :: "(nat \<Rightarrow> gql_node option) \<Rightarrow> world \<Rightarrow> nat \<Rightarrow> nat list \<Rightarrow> world" where
  "processResults repository w i [] = w"
| "processResults repository w i (prNumber # rest) =
     (case repository i of
        None \<Rightarrow> processResults repository w (Suc i) rest
      | Some node \<Rightarrow>
          (let processedData = \<lparr>number = node_number node,
                                author_association = authorAssociation node,
                                created_at = createdAt node,
                                user = author node\<rparr>
           in processResults repository
                (setCache (w\<lparr>prData := (prData w)(prNumber \<mapsto> processedData)\<rparr>)
                   prNumber processedData)
                (Suc i) rest))"

text \<open>
  \<open>fetchPRDataGraphQL(prNumbers)\<close>. The two \<open>TypeError\<close> messages are the engine's; they only
  reach the log.
\<close>

definition fetchPRDataGraphQL :: "remote \<Rightarrow> world \<Rightarrow> nat list \<Rightarrow> (string + unit) \<times> world" where
  "fetchPRDataGraphQL env w prNumbers =
     (let w1 = w\<lparr>requests := requests w @ [GraphQLRequest prNumbers],
                 now := now w + graphqlLatency env prNumbers\<rparr>
      in case graphqlApi env (requests w) prNumbers of
           Rejected msg \<Rightarrow> (Inl msg, w1)
         | Response status statusText body \<Rightarrow>
             if \<not> ok status then
               (Inl (''GraphQL API error: '' @ showNat status @ '' - '' @ statusText), w1)
             else
               (case body of
                  JsonError msg \<Rightarrow> (Inl msg, w1)
                | Json result \<Rightarrow>
                    (case errors result of
                       Some errs \<Rightarrow> (Inl (''GraphQL errors: '' @ errs), w1)
                     | None \<Rightarrow>
                         (case gqlData result of
                            NoData \<Rightarrow>
                              (Inl ''Cannot read properties of undefined (reading 'repository')'', w1)
                          | NoRepository \<Rightarrow>
                              if prNumbers = [] then (Inr (), w1)
                              else (Inl ''Cannot read properties of null (reading 'pr0')'', w1)
                          | Repository repository \<Rightarrow>
                              (Inr (), processResults repository w1 0 prNumbers)))))"

text \<open>The loop "load cached data first" of \<open>fetchPRData\<close>.\<close>

fun loadCached :: "world \<Rightarrow> nat list \<Rightarrow> world" where
  "loadCached w [] = w"
| "loadCached w (prNumber # rest) =
     (if prData w prNumber \<noteq> None then loadCached w rest
      else
        (case getFromCache w prNumber of
           (Some cached, w1) \<Rightarrow> loadCached (w1\<lparr>prData := (prData w1)(prNumber \<mapsto> cached)\<rparr>) rest
         | (None, w1) \<Rightarrow> loadCached w1 rest))"

text \<open>The world after the cache has been cleaned and consulted, and what is then left to fetch.\<close>

definition afterCacheLoad :: "world \<Rightarrow> world" where
  "afterCacheLoad w =
     (let w1 = clearExpiredCache w
      in loadCached w1 (allPRNumbers (githubToken w1) (pullAnchors w1)))"

definition prNumbersToFetch :: "world \<Rightarrow> nat list" where
  "prNumbersToFetch w =
     filter (\<lambda>num. prData (afterCacheLoad w) num = None)
       (allPRNumbers (githubToken (clearExpiredCache w)) (pullAnchors (clearExpiredCache w)))"

text \<open>\<open>fetchPRData()\<close>\<close>

definition fetchPRData :: "remote \<Rightarrow> world \<Rightarrow> (string + unit) \<times> world" where
  "fetchPRData env w =
     (let w2 = afterCacheLoad w;
          toFetch = prNumbersToFetch w
      in if length toFetch = 0 then (Inr (), w2)
         else if tokenPresent (githubToken w2) \<and> length toFetch > 3 then
           (case fetchPRDataGraphQL env w2 toFetch of
              (Inl msg, w3) \<Rightarrow> fetchPRDataREST env w3 toFetch
            | (Inr u, w3) \<Rightarrow> (Inr u, w3))
         else fetchPRDataREST env w2 toFetch)"

text \<open>Whether a request asks for pull request \<open>n\<close>.\<close>

fun asksFor :: "nat \<Rightarrow> request \<Rightarrow> bool" where
  "asksFor n (RestRequest m) = (m = n)"
| "asksFor n (GraphQLRequest ms) = (n \<in> set ms)"

text \<open>The requests issued between two worlds.\<close>

definition issued :: "world \<Rightarrow> world \<Rightarrow> request list" where
  "issued w w' = drop (length (requests w)) (requests w')"

text \<open>The world right after the batch request has been sent and answered.\<close>

definition afterBatchRequest :: "remote \<Rightarrow> world \<Rightarrow> nat list \<Rightarrow> world" where
  "afterBatchRequest env w ns =
     w\<lparr>requests := requests w @ [GraphQLRequest ns], now := now w + graphqlLatency env ns\<rparr>"

section \<open>The trigger\<close>


definition saveSortPreference :: "world \<Rightarrow> world" where
  "saveSortPreference w =
     (if chromeStorage w then w\<lparr>storedSortOrder := Some (sortOrder w)\<rparr> else w)"



section \<open>A listing of four rows\<close>

text \<open>
  Four rows for pull requests 1 to 4; the record of pull request 2 is not available.
\<close>

definition exampleRecord :: "nat \<Rightarrow> string \<Rightarrow> pr_record" where
  "exampleRecord n a = \<lparr>number = n, author_association = a, created_at = ''2024-01-01T00:00:00Z'', user = ''octocat''\<rparr>"

definition exampleRows :: "element list" where
  "exampleRows =
     [\<lparr>elemId = 1, pullLink = Some ''https://github.com/o/r/pull/1'', originalIndex = None\<rparr>,
      \<lparr>elemId = 2, pullLink = Some ''https://github.com/o/r/pull/2'', originalIndex = None\<rparr>,
      \<lparr>elemId = 3, pullLink = Some ''https://github.com/o/r/pull/3'', originalIndex = None\<rparr>,
      \<lparr>elemId = 4, pullLink = Some ''https://github.com/o/r/pull/4'', originalIndex = None\<rparr>]"

definition exampleWorld :: world where
  "exampleWorld =
     \<lparr>prData = [1 \<mapsto> exampleRecord 1 ''MEMBER'', 3 \<mapsto> exampleRecord 3 ''FIRST_TIMER'',
                4 \<mapsto> exampleRecord 4 ''FIRST_TIMER''],
      sortOrder = ''new-first'',
      githubToken = None,
      cache = [],
      locationHref = ''https://github.com/o/r/pulls'',
      pullAnchors = [''https://github.com/o/r/pull/1'', ''https://github.com/o/r/pull/2'',
                     ''https://github.com/o/r/pull/3'', ''https://github.com/o/r/pull/4''],
      prContainer = Some \<lparr>originalOrder = False, rows = exampleRows\<rparr>,
      now = 1000,
      chromeStorage = True,
      storedSortOrder = None,
      storedCache = None,
      requests = []\<rparr>"




text \<open>Caches of \<open>n\<close> entries for pull requests 1 to \<open>n\<close>, all stamped at clock 1000.\<close>

definition cacheOf :: "nat \<Rightarrow> (nat \<times> cache_entry) list" where
  "cacheOf n = map (\<lambda>k. (k, \<lparr>data = exampleRecord k ''MEMBER'', timestamp = 1000\<rparr>)) [1..<Suc n]"


definition overfullWorld :: world where
  "overfullWorld = exampleWorld\<lparr>cache := cacheOf 201\<rparr>"

text \<open>
  A remote side whose REST endpoint answers every request and whose GraphQL endpoint cannot be
  reached; one whose gateway fails on pull request 2; and variants of the listing.
\<close>

definition exampleData :: rest_data where
  "exampleData = \<lparr>rest_author_association = ''NONE'', rest_created_at = ''2024-01-01T00:00:00Z'',
                   rest_user = ''octocat''\<rparr>"

definition exampleRemote :: remote where
  "exampleRemote =
     \<lparr>restApi = (\<lambda>log n. Response 200 ''OK'' (Json exampleData)),
      graphqlApi = (\<lambda>log ns. Rejected ''Failed to fetch''),
      restLatency = (\<lambda>n. 120),
      graphqlLatency = (\<lambda>ns. 300)\<rparr>"

definition gatewayRemote :: remote where
  "gatewayRemote =
     exampleRemote\<lparr>restApi := (\<lambda>log n.
        if n = 2 then Response 502 ''Bad Gateway (upstream 403)'' (JsonError ''Unexpected end of JSON input'')
        else Response 200 ''OK'' (Json exampleData))\<rparr>"

definition noDataWorld :: world where
  "noDataWorld = exampleWorld\<lparr>prData := Map.empty\<rparr>"

definition batchWorld :: world where
  "batchWorld = exampleWorld\<lparr>prData := Map.empty, githubToken := Some ''ghp_example''\<rparr>"


section \<open>Properties\<close>

subsection \<open>Classifier\<close>

text \<open>
  Claim C9. The classifier is a total function of the association kind: it gives tier 1 on
  \<open>FIRST_TIMER\<close>, \<open>FIRST_TIME_CONTRIBUTOR\<close> and \<open>NONE\<close>, and tier 2 on every other string,
  recognised or not. Being a function, it gives the same tier on the same input.
\<close>

theorem getContributorPriority_total:
  "getContributorPriority a =
     (if a = ''FIRST_TIMER'' \<or> a = ''FIRST_TIME_CONTRIBUTOR'' \<or> a = ''NONE'' then 1 else 2)"
  by (auto simp: getContributorPriority_def newContributorStatuses_def)

subsection \<open>Identifier extraction\<close>

lemma concat_truthyNumber:
  "concat (map truthyNumber (map (\<lambda>el. extractPRNumber (Some el)) xs)) =
   List.map_filter identifierOf xs"
  by (induction xs)
     (auto simp: List.map_filter_simps identifierOf_def split: option.splits)

lemma length_map_filter_le: "length (List.map_filter f xs) \<le> length xs"
  by (induction xs) (auto simp: List.map_filter_simps split: option.splits)

text \<open>
  Claim C5, as the code has it. The extractor reads only the first \<open>maxCount\<close> raw references
  (50 with a credential, 10 without) and outputs, in input order and keeping repetitions, the
  identifier of each of them that embeds a non-zero one; the others are dropped and nothing is
  raised. The output has at most \<open>maxCount\<close> identifiers.
\<close>

theorem allPRNumbers_first_references:
  "allPRNumbers tok refs =
     List.map_filter identifierOf (take (if tokenPresent tok then 50 else 10) refs)
   \<and> length (allPRNumbers tok refs) \<le> (if tokenPresent tok then 50 else 10)"
proof -
  let ?m = "if tokenPresent tok then 50 else (10::nat)"
  have eq: "allPRNumbers tok refs = List.map_filter identifierOf (take ?m refs)"
    unfolding allPRNumbers_def maxPRs_def by (rule concat_truthyNumber)
  have "length (List.map_filter identifierOf (take ?m refs)) \<le> length (take ?m refs)"
    by (rule length_map_filter_le)
  also have "\<dots> \<le> ?m" by simp
  finally show ?thesis using eq by simp
qed

text \<open>
  Claim C5 as stated fails: the code never removes duplicates. Two references to pull request 7
  give the identifier twice.
\<close>

theorem allPRNumbers_duplicates:
  "allPRNumbers None [''https://github.com/o/r/pull/7'', ''https://github.com/o/r/pull/7/files'']
     = [7, 7]"
  by (simp add: allPRNumbers_def maxPRs_def tokenPresent_def parseInt_def digitVal_def
      isDigit_def)

subsection \<open>The two sorts conform\<close>

lemma keyedBy_le: "keyedBy cmp k xs \<Longrightarrow> a \<in> set xs \<Longrightarrow> b \<in> set xs \<Longrightarrow> (cmp a b \<le> 0) = (k a \<le> k b)"
proof -
  assume "keyedBy cmp k xs" "a \<in> set xs" "b \<in> set xs"
  then have "sgn (cmp a b) = sgn (k a - k b)" by (simp add: keyedBy_def)
  then show ?thesis by (auto simp: sgn_if split: if_splits)
qed



lemma mset_insertSorted: "mset (insertSorted cmp x ys) = add_mset x (mset ys)"
  by (induction ys) auto

lemma mset_arraySort: "mset (arraySort cmp xs) = mset xs"
  by (induction xs) (auto simp: arraySort_def mset_insertSorted)

lemma insertSorted_insort_key:
  "\<forall>y \<in> set ys. (cmp x y \<le> 0) = (k x \<le> k y) \<Longrightarrow> insertSorted cmp x ys = insort_key k x ys"
  by (induction ys) auto

lemma arraySort_sort_key:
  "keyedBy cmp k xs \<Longrightarrow> arraySort cmp xs = sort_key k xs"
proof (induction xs)
  case Nil
  then show ?case by (simp add: arraySort_def)
next
  case (Cons x xs)
  have sub: "keyedBy cmp k xs" using Cons.prems by (auto simp: keyedBy_def)
  have ih: "arraySort cmp xs = sort_key k xs" by (rule Cons.IH [OF sub])
  have "\<forall>y \<in> set (sort_key k xs). (cmp x y \<le> 0) = (k x \<le> k y)"
    using keyedBy_le [OF Cons.prems] by simp
  then have "insertSorted cmp x (sort_key k xs) = insort_key k x (sort_key k xs)"
    by (rule insertSorted_insort_key)
  then show ?case using ih by (simp add: arraySort_def sort_key_def)
qed


lemma mset_mergeBy: "mset (mergeBy cmp xs ys) = mset xs + mset ys"
  by (induction cmp xs ys rule: mergeBy.induct) auto

lemma set_mergeBy: "set (mergeBy cmp xs ys) = set xs \<union> set ys"
  by (induction cmp xs ys rule: mergeBy.induct) auto

lemma mset_mergeSort: "mset (mergeSort cmp xs) = mset xs"
proof (induction cmp xs rule: mergeSort.induct)
  case (1 cmp xs)
  show ?case
  proof (cases "length xs \<le> 1")
    case True
    then show ?thesis by (simp add: mergeSort.simps)
  next
    case False
    have "mset (mergeSort cmp xs) =
          mset (take (length xs div 2) xs) + mset (drop (length xs div 2) xs)"
      using False "1" by (subst mergeSort.simps) (simp add: mset_mergeBy)
    also have "\<dots> = mset xs"
      by (metis append_take_drop_id mset_append)
    finally show ?thesis .
  qed
qed

lemma sorted_mergeBy:
  "\<forall>a \<in> set xs \<union> set ys. \<forall>b \<in> set xs \<union> set ys. (cmp a b \<le> 0) = (k a \<le> k b) \<Longrightarrow>
   sorted (map k xs) \<Longrightarrow> sorted (map k ys) \<Longrightarrow> sorted (map k (mergeBy cmp xs ys))"
proof (induction cmp xs ys rule: mergeBy.induct)
  case (3 cmp x xs y ys)
  show ?case
  proof (cases "cmp x y \<le> 0")
    case True
    have kxy: "k x \<le> k y" using True "3.prems"(1) by auto
    have "sorted (map k (mergeBy cmp xs (y # ys)))"
      using "3" True by auto
    moreover have "\<forall>z \<in> set (mergeBy cmp xs (y # ys)). k x \<le> k z"
      using "3.prems" kxy by (auto simp: set_mergeBy)
    ultimately show ?thesis using True by simp
  next
    case False
    have kxy: "k y \<le> k x" using False "3.prems"(1) by (metis UnCI linear list.set_intros(1))
    have "sorted (map k (mergeBy cmp (x # xs) ys))"
      using "3" False by auto
    moreover have "\<forall>z \<in> set (mergeBy cmp (x # xs) ys). k y \<le> k z"
      using "3.prems" kxy by (auto simp: set_mergeBy)
    ultimately show ?thesis using False by simp
  qed
qed auto

lemma filter_mergeBy:
  "\<forall>a \<in> set xs \<union> set ys. \<forall>b \<in> set xs \<union> set ys. (cmp a b \<le> 0) = (k a \<le> k b) \<Longrightarrow>
   sorted (map k xs) \<Longrightarrow> sorted (map k ys) \<Longrightarrow>
   filter (\<lambda>z. k z = c) (mergeBy cmp xs ys) = filter (\<lambda>z. k z = c) xs @ filter (\<lambda>z. k z = c) ys"
proof (induction cmp xs ys rule: mergeBy.induct)
  case (3 cmp x xs y ys)
  show ?case
  proof (cases "cmp x y \<le> 0")
    case True
    then show ?thesis using "3" by auto
  next
    case False
    have kxy: "k y < k x" using False "3.prems"(1) by (metis UnCI not_le list.set_intros(1))
    have nox: "filter (\<lambda>z. k z = k y) (x # xs) = []"
      using kxy "3.prems"(2) by (auto simp: filter_empty_conv)
    have ih: "filter (\<lambda>z. k z = c) (mergeBy cmp (x # xs) ys) =
              filter (\<lambda>z. k z = c) (x # xs) @ filter (\<lambda>z. k z = c) ys"
      using "3" False by auto
    show ?thesis
    proof (cases "k y = c")
      case True
      then show ?thesis using False ih nox by auto
    next
      case False': False
      then show ?thesis using False ih by auto
    qed
  qed
qed auto


lemma keyedBy_mono: "keyedBy cmp k xs \<Longrightarrow> set ys \<subseteq> set xs \<Longrightarrow> keyedBy cmp k ys"
  by (auto simp: keyedBy_def)

lemma mergeSort_props:
  "keyedBy cmp k xs \<Longrightarrow>
   sorted (map k (mergeSort cmp xs)) \<and>
   (\<forall>c. filter (\<lambda>z. k z = c) (mergeSort cmp xs) = filter (\<lambda>z. k z = c) xs)"
proof (induction cmp xs rule: mergeSort.induct)
  case (1 cmp xs)
  show ?case
  proof (cases "length xs \<le> 1")
    case True
    then have "mergeSort cmp xs = xs" by (simp add: mergeSort.simps)
    moreover have "sorted (map k xs)" using True
      by (cases xs) (auto simp: le_Suc_eq)
    ultimately show ?thesis by simp
  next
    case False
    let ?l = "take (length xs div 2) xs" and ?r = "drop (length xs div 2) xs"
    have kl: "keyedBy cmp k ?l" using "1.prems" by (rule keyedBy_mono) (rule set_take_subset)
    have kr: "keyedBy cmp k ?r" using "1.prems" by (rule keyedBy_mono) (rule set_drop_subset)
    have il: "sorted (map k (mergeSort cmp ?l))"
      "\<And>c. filter (\<lambda>z. k z = c) (mergeSort cmp ?l) = filter (\<lambda>z. k z = c) ?l"
      using "1.IH"(1) [OF False kl] by auto
    have ir: "sorted (map k (mergeSort cmp ?r))"
      "\<And>c. filter (\<lambda>z. k z = c) (mergeSort cmp ?r) = filter (\<lambda>z. k z = c) ?r"
      using "1.IH"(2) [OF False kr] by auto
    have sets: "set (mergeSort cmp ?l) \<union> set (mergeSort cmp ?r) \<subseteq> set xs"
      using set_take_subset [of "length xs div 2" xs] set_drop_subset [of "length xs div 2" xs]
      by (metis Un_least mset_eq_setD mset_mergeSort)
    have le: "\<forall>a \<in> set (mergeSort cmp ?l) \<union> set (mergeSort cmp ?r).
              \<forall>b \<in> set (mergeSort cmp ?l) \<union> set (mergeSort cmp ?r). (cmp a b \<le> 0) = (k a \<le> k b)"
      using keyedBy_le [OF "1.prems"] sets by blast
    have unf: "mergeSort cmp xs = mergeBy cmp (mergeSort cmp ?l) (mergeSort cmp ?r)"
      using False by (subst mergeSort.simps) simp
    have s: "sorted (map k (mergeSort cmp xs))"
      unfolding unf by (rule sorted_mergeBy [OF le il(1) ir(1)])
    have f: "filter (\<lambda>z. k z = c) (mergeSort cmp xs) = filter (\<lambda>z. k z = c) xs" for c
    proof -
      have "filter (\<lambda>z. k z = c) (mergeSort cmp xs) =
            filter (\<lambda>z. k z = c) ?l @ filter (\<lambda>z. k z = c) ?r"
        unfolding unf by (simp add: filter_mergeBy [OF le il(1) ir(1)] il(2) ir(2))
      also have "\<dots> = filter (\<lambda>z. k z = c) (?l @ ?r)" by (simp only: filter_append)
      also have "?l @ ?r = xs" by (rule append_take_drop_id)
      finally show ?thesis .
    qed
    show ?thesis using s f by blast
  qed
qed

lemma mergeSort_sort_key:
  assumes "keyedBy cmp k xs"
  shows "mergeSort cmp xs = sort_key k xs"
proof -
  have p: "sorted (map k (mergeSort cmp xs))"
    "\<And>c. filter (\<lambda>z. k z = c) (mergeSort cmp xs) = filter (\<lambda>z. k z = c) xs"
    using mergeSort_props [OF assms] by auto
  have "sort_key k xs = mergeSort cmp xs"
  proof (rule properties_for_sort_key)
    show "mset (mergeSort cmp xs) = mset xs" by (rule mset_mergeSort)
    show "sorted (map k (mergeSort cmp xs))" by (rule p(1))
    show "filter (\<lambda>x. k z = k x) (mergeSort cmp xs) = filter (\<lambda>x. k z = k x) xs" for z
      using p(2) [of "k z"] by (simp add: eq_commute)
  qed
  then show ?thesis by simp
qed

lemma conformingSort_mergeSort: "conformingSort mergeSort"
  by (simp add: conformingSort_def mset_mergeSort mergeSort_sort_key)

subsection \<open>The orderer\<close>

lemma stampFrom_index: "map originalIndex (stampFrom i xs) = map Some [i..<i + length xs]"
proof (induction xs arbitrary: i)
  case Nil
  then show ?case by simp
next
  case (Cons x xs)
  have "[i..<i + length (x # xs)] = i # [Suc i..<Suc i + length xs]"
    by (simp add: upt_rec)
  then show ?case using Cons.IH [of "Suc i"] by simp
qed

lemma stampFrom_elemId: "map elemId (stampFrom i xs) = map elemId xs"
  by (induction xs arbitrary: i) auto

lemma indexOf_stampFrom: "map indexOf (stampFrom i xs) = map int [i..<i + length xs]"
proof -
  have "map indexOf (stampFrom i xs) =
        map (\<lambda>oi. case oi of None \<Rightarrow> 0 | Some j \<Rightarrow> int j) (map originalIndex (stampFrom i xs))"
    by (simp add: indexOf_def comp_def)
  then show ?thesis by (simp add: stampFrom_index comp_def)
qed

lemma keyedBy_restoreCompare: "keyedBy restoreCompare indexOf xs"
  by (simp add: keyedBy_def restoreCompare_def)

lemma filter_distinct_key:
  "distinct (map f ys) \<Longrightarrow> z \<in> set ys \<Longrightarrow> filter (\<lambda>x. f z = f x) ys = [z]"
proof (induction ys)
  case Nil
  then show ?case by simp
next
  case (Cons y ys)
  show ?case
  proof (cases "z = y")
    case True
    have "filter (\<lambda>x. f y = f x) ys = []"
      using Cons.prems(1) by (auto simp: filter_empty_conv)
    then show ?thesis using True by simp
  next
    case False
    then have "z \<in> set ys" using Cons.prems(2) by simp
    moreover have "f z \<noteq> f y"
    proof
      assume "f z = f y"
      then have "f y \<in> f ` set ys" using \<open>z \<in> set ys\<close> by (metis imageI)
      then show False using Cons.prems(1) by simp
    qed
    ultimately show ?thesis using Cons by simp
  qed
qed

text \<open>Sorting any rearrangement of freshly stamped rows by the stamp gives the stamped rows.\<close>

lemma restore_stamped:
  assumes "mset ys = mset (stampFrom 0 xs)"
  shows "arraySort restoreCompare ys = stampFrom 0 xs"
proof -
  let ?st = "stampFrom 0 xs"
  have idx: "map indexOf ?st = map int [0..<length xs]"
    using indexOf_stampFrom [of 0 xs] by simp
  have dist_st: "distinct (map indexOf ?st)"
    unfolding idx by (simp add: distinct_map inj_on_def)
  have "mset (map indexOf ys) = mset (map indexOf ?st)"
    using assms by (metis mset_map)
  then have dist_ys: "distinct (map indexOf ys)"
    using dist_st by (metis mset_eq_imp_distinct_iff)
  have sets: "set ys = set ?st" using assms by (rule mset_eq_setD)
  have "sort_key indexOf ys = ?st"
  proof (rule properties_for_sort_key)
    show "mset ?st = mset ys" using assms by simp
    show "sorted (map indexOf ?st)" unfolding idx by (simp add: sorted_map strict_sorted_iff del: upt.simps)
    show "filter (\<lambda>x. indexOf z = indexOf x) ?st = filter (\<lambda>x. indexOf z = indexOf x) ys"
      if "z \<in> set ?st" for z
      using filter_distinct_key [OF dist_st that] filter_distinct_key [OF dist_ys, of z] that sets
      by simp
  qed
  then show ?thesis
    using arraySort_sort_key [OF keyedBy_restoreCompare, of ys] by simp
qed

lemma applySorting_container:
  assumes "prContainer w = Some c"
  shows "prContainer (applySorting srt w) =
         Some \<lparr>originalOrder = (originalOrder c \<or> rows c \<noteq> []),
               rows = (if rows c = [] then []
                       else srt (sortCompare (prData w) (sortOrder w)) (rowsToSort c))\<rparr>"
  using assms by (simp add: applySorting_def rowsToSort_def Let_def)

lemma rowsToSort_Nil: "rows c = [] \<Longrightarrow> rowsToSort c = []"
  by (simp add: rowsToSort_def)

lemma displayed_applySorting:
  assumes "prContainer w = Some c"
  shows "displayed (applySorting srt w) =
         (if rows c = [] then []
          else srt (sortCompare (prData w) (sortOrder w)) (rowsToSort c))"
  by (simp add: displayed_def applySorting_container [OF assms])

lemma mset_displayed_applySorting:
  assumes "conformingSort srt" "prContainer w = Some c"
  shows "mset (displayed (applySorting srt w)) = mset (rowsToSort c)"
  using assms(1) by (simp add: displayed_applySorting [OF assms(2)] conformingSort_def rowsToSort_Nil)

lemma displayed_restoreDefaultOrder:
  "displayed (restoreDefaultOrder w) = arraySort restoreCompare (displayed w)"
  by (cases "prContainer w") (simp_all add: displayed_def restoreDefaultOrder_def arraySort_def)

lemma restore_after_sort:
  assumes srt: "conformingSort srt" and c: "prContainer w = Some c"
    and fresh: "\<not> originalOrder c"
  shows "displayed (restoreDefaultOrder (applySorting srt w)) = stampFrom 0 (rows c)"
proof -
  have "mset (displayed (applySorting srt w)) = mset (stampFrom 0 (rows c))"
    using mset_displayed_applySorting [OF srt c] fresh by (simp add: rowsToSort_def)
  then show ?thesis
    by (simp add: displayed_restoreDefaultOrder restore_stamped)
qed

lemma mset_resort:
  assumes srt: "conformingSort srt" and c: "prContainer w = Some c"
  shows "mset (displayed (applySorting srt ((applySorting srt w)\<lparr>sortOrder := Y\<rparr>))) =
         mset (displayed (applySorting srt w))"
proof -
  let ?w1 = "applySorting srt w"
  let ?c1 = "\<lparr>originalOrder = (originalOrder c \<or> rows c \<noteq> []),
               rows = (if rows c = [] then []
                       else srt (sortCompare (prData w) (sortOrder w)) (rowsToSort c))\<rparr>"
  have c1: "prContainer (?w1\<lparr>sortOrder := Y\<rparr>) = Some ?c1"
    using applySorting_container [OF c, of srt] by simp
  have "rowsToSort ?c1 = rows ?c1"
    by (simp add: rowsToSort_def)
  then have "mset (displayed (applySorting srt (?w1\<lparr>sortOrder := Y\<rparr>))) = mset (rows ?c1)"
    using mset_displayed_applySorting [OF srt c1] by simp
  also have "rows ?c1 = displayed ?w1"
    by (simp add: displayed_applySorting [OF c])
  finally show ?thesis .
qed

lemma restore_after_resort:
  assumes srt: "conformingSort srt" and c: "prContainer w = Some c"
    and fresh: "\<not> originalOrder c"
  shows "displayed (restoreDefaultOrder (applySorting srt ((applySorting srt w)\<lparr>sortOrder := Y\<rparr>))) =
         stampFrom 0 (rows c)"
proof -
  have "mset (displayed (applySorting srt ((applySorting srt w)\<lparr>sortOrder := Y\<rparr>))) =
        mset (stampFrom 0 (rows c))"
    using mset_resort [OF srt c, of Y] mset_displayed_applySorting [OF srt c] fresh
    by (simp add: rowsToSort_def)
  then show ?thesis
    by (simp add: displayed_restoreDefaultOrder restore_stamped)
qed

text \<open>
  Claim C1. Take a listing whose container has not been sorted before, so that the first
  \<open>applySorting\<close> stamps all its rows together, and any host sort that keeps the ECMAScript
  contract. For every sort order \<open>X\<close>, \<open>restoreDefaultOrder\<close> after \<open>applySorting\<close> shows the rows
  in their original order, each carrying its original position, so the positions read
  \<open>0, 1, 2, ...\<close> in ascending order. A second \<open>applySorting\<close>, with any order \<open>Y\<close>, keeps every
  row's stamp (the rows are the same as after the first one, stamps included), and restoring
  after it gives the original order again.
\<close>

theorem restoreDefault_applySorting:
  assumes "conformingSort srt" and "prContainer w = Some c" and "\<not> originalOrder c"
  shows
    "displayed (restoreDefaultOrder (applySorting srt (w\<lparr>sortOrder := X\<rparr>))) = stampFrom 0 (rows c)
     \<and> map elemId (displayed (restoreDefaultOrder (applySorting srt (w\<lparr>sortOrder := X\<rparr>))))
         = map elemId (rows c)
     \<and> map indexOf (displayed (restoreDefaultOrder (applySorting srt (w\<lparr>sortOrder := X\<rparr>))))
         = map int [0..<length (rows c)]
     \<and> mset (displayed (applySorting srt ((applySorting srt (w\<lparr>sortOrder := X\<rparr>))\<lparr>sortOrder := Y\<rparr>)))
         = mset (displayed (applySorting srt (w\<lparr>sortOrder := X\<rparr>)))
     \<and> displayed (restoreDefaultOrder
           (applySorting srt ((applySorting srt (w\<lparr>sortOrder := X\<rparr>))\<lparr>sortOrder := Y\<rparr>)))
         = stampFrom 0 (rows c)"
proof -
  have c: "prContainer (w\<lparr>sortOrder := X\<rparr>) = Some c" using assms(2) by simp
  have a: "displayed (restoreDefaultOrder (applySorting srt (w\<lparr>sortOrder := X\<rparr>))) =
           stampFrom 0 (rows c)"
    by (rule restore_after_sort [OF assms(1) c assms(3)])
  have b: "map elemId (stampFrom 0 (rows c)) = map elemId (rows c)"
    by (rule stampFrom_elemId)
  have d: "map indexOf (stampFrom 0 (rows c)) = map int [0..<length (rows c)]"
    using indexOf_stampFrom [of 0 "rows c"] by simp
  show ?thesis
    using a b d mset_resort [OF assms(1) c, of Y] restore_after_resort [OF assms(1) c assms(3), of Y]
    by simp
qed

text \<open>
  On the listing of four rows, with the merge sort (which moves rows 3 and 4 to the front),
  restoring gives rows 1, 2, 3, 4 again.
\<close>

theorem restoreDefault_applySorting_witness:
  "map elemId (displayed (restoreDefaultOrder (applySorting mergeSort exampleWorld))) = [1, 2, 3, 4]"
  using restoreDefault_applySorting [OF conformingSort_mergeSort, of exampleWorld
      "\<lparr>originalOrder = False, rows = exampleRows\<rparr>" "''new-first''" "''existing-first''"]
  by (simp add: exampleWorld_def exampleRows_def)

lemma rowData_stamp [simp]: "rowData pd (el\<lparr>originalIndex := v\<rparr>) = rowData pd el"
  by (simp add: rowData_def)



lemma sortCompare_stamp [simp]:
  "sortCompare pd X (a\<lparr>originalIndex := v\<rparr>) (b\<lparr>originalIndex := u\<rparr>) = sortCompare pd X a b"
  by (simp add: sortCompare_def cong: option.case_cong)










subsection \<open>The cache store\<close>

lemma keyedBy_recentFirst: "keyedBy recentFirst (\<lambda>p. - timestamp (snd p)) xs"
  by (simp add: keyedBy_def recentFirst_def)

lemma arraySort_recentFirst:
  "arraySort recentFirst xs = sort_key (\<lambda>p. - timestamp (snd p)) xs"
  by (rule arraySort_sort_key [OF keyedBy_recentFirst])

lemma cache_save_small:
  "length (cache w) \<le> 200 \<Longrightarrow> cache (saveCacheToStorage w) = cache w"
  by (simp add: saveCacheToStorage_def)

lemma cache_save_big:
  "chromeStorage w \<Longrightarrow> 200 < length (cache w) \<Longrightarrow>
   cache (saveCacheToStorage w) = take 150 (arraySort recentFirst (cache w))"
  by (simp add: saveCacheToStorage_def Let_def)

lemma length_cache_save:
  "chromeStorage w \<Longrightarrow> length (cache (saveCacheToStorage w)) \<le> 200"
  by (cases "200 < length (cache w)")
     (simp_all add: cache_save_big cache_save_small)

lemma chromeStorage_save [simp]: "chromeStorage (saveCacheToStorage w) = chromeStorage w"
  by (simp add: saveCacheToStorage_def Let_def)

lemma chromeStorage_setCache [simp]: "chromeStorage (setCache w n d) = chromeStorage w"
  by (simp add: setCache_def)

lemma length_cache_setCache:
  "chromeStorage w \<Longrightarrow> length (cache (setCache w n d)) \<le> 200"
  by (simp add: setCache_def length_cache_save)

lemma chromeStorage_putAll [simp]: "chromeStorage (putAll w ps) = chromeStorage w"
  by (induction w ps rule: putAll.induct) auto

lemma length_cache_putAll:
  "chromeStorage w \<Longrightarrow> ps \<noteq> [] \<or> length (cache w) \<le> 200 \<Longrightarrow>
   length (cache (putAll w ps)) \<le> 200"
proof (induction w ps rule: putAll.induct)
  case (1 w)
  then show ?case by simp
next
  case (2 w t prNumber d ps)
  have "length (cache (setCache (w\<lparr>now := t\<rparr>) prNumber d)) \<le> 200"
    using "2.prems"(1) by (simp add: length_cache_setCache)
  then show ?case using "2.IH" "2.prems"(1) by simp
qed

lemma eviction_keeps_recent:
  fixes xs :: "(nat \<times> cache_entry) list"
  defines "ys \<equiv> arraySort recentFirst xs"
  shows "mset (take n ys) \<subseteq># mset xs"
    and "mset xs - mset (take n ys) = mset (drop n ys)"
    and "\<forall>kept \<in> set (take n ys). \<forall>dropped \<in> set (drop n ys).
           timestamp (snd dropped) \<le> timestamp (snd kept)"
proof -
  have m: "mset xs = mset (take n ys) + mset (drop n ys)"
    by (metis append_take_drop_id mset_append mset_arraySort ys_def)
  show "mset (take n ys) \<subseteq># mset xs" using m by simp
  show "mset xs - mset (take n ys) = mset (drop n ys)" using m by simp
  have "sorted (map (\<lambda>p. - timestamp (snd p)) ys)"
    by (simp add: ys_def arraySort_recentFirst)
  then have "sorted (map (\<lambda>p. - timestamp (snd p)) (take n ys) @ map (\<lambda>p. - timestamp (snd p)) (drop n ys))"
    by (metis append_take_drop_id map_append)
  then show "\<forall>kept \<in> set (take n ys). \<forall>dropped \<in> set (drop n ys).
           timestamp (snd dropped) \<le> timestamp (snd kept)"
    by (auto simp: sorted_append)
qed

text \<open>
  Claim C2. Where \<open>chrome.storage\<close> is defined (the extension's content script; the eviction
  sits in \<open>saveCacheToStorage\<close> behind that test): after any sequence of \<open>put\<close> operations the
  cache holds at most 200 entries (from any cache when there is at least one \<open>put\<close>, and from a
  cache of at most 200 entries otherwise); a cache of at most 200 entries is left as it is;
  and with more than 200 entries the eviction keeps exactly 150 of them, none older than any
  entry it discards, whatever the clock reads, so entries within the TTL are discarded too.
\<close>

theorem cache_capacity:
  assumes "chromeStorage w"
  shows
    "(ps \<noteq> [] \<or> length (cache w) \<le> 200 \<longrightarrow> length (cache (putAll w ps)) \<le> 200)
     \<and> (length (cache w) \<le> 200 \<longrightarrow> cache (saveCacheToStorage w) = cache w)
     \<and> (200 < length (cache w) \<longrightarrow>
          length (cache (saveCacheToStorage w)) = 150
          \<and> mset (cache (saveCacheToStorage w)) \<subseteq># mset (cache w)
          \<and> (\<forall>kept \<in> set (cache (saveCacheToStorage w)).
               \<forall>dropped \<in># mset (cache w) - mset (cache (saveCacheToStorage w)).
                 timestamp (snd dropped) \<le> timestamp (snd kept))
          \<and> cache (saveCacheToStorage (w\<lparr>now := t\<rparr>)) = cache (saveCacheToStorage w))"
proof -
  have a: "ps \<noteq> [] \<or> length (cache w) \<le> 200 \<longrightarrow> length (cache (putAll w ps)) \<le> 200"
    using length_cache_putAll [OF assms] by blast
  have b: "length (cache w) \<le> 200 \<longrightarrow> cache (saveCacheToStorage w) = cache w"
    by (simp add: cache_save_small)
  have c: "length (cache (saveCacheToStorage w)) = 150
          \<and> mset (cache (saveCacheToStorage w)) \<subseteq># mset (cache w)
          \<and> (\<forall>kept \<in> set (cache (saveCacheToStorage w)).
               \<forall>dropped \<in># mset (cache w) - mset (cache (saveCacheToStorage w)).
                 timestamp (snd dropped) \<le> timestamp (snd kept))
          \<and> cache (saveCacheToStorage (w\<lparr>now := t\<rparr>)) = cache (saveCacheToStorage w)"
    if big: "200 < length (cache w)"
  proof -
    let ?ys = "arraySort recentFirst (cache w)"
    have eq: "cache (saveCacheToStorage w) = take 150 ?ys"
      by (rule cache_save_big [OF assms big])
    have len: "length ?ys = length (cache w)"
      by (metis mset_arraySort size_mset)
    have l: "length (take 150 ?ys) = 150" using big len by simp
    have t: "cache (saveCacheToStorage (w\<lparr>now := t\<rparr>)) = take 150 ?ys"
      using cache_save_big [of "w\<lparr>now := t\<rparr>"] assms big by simp
    show ?thesis
      unfolding eq t
      using l eviction_keeps_recent [where n = 150 and xs = "cache w"] by simp
  qed
  show ?thesis using a b c by blast
qed

text \<open>
  One \<open>put\<close> into the empty cache leaves at most 200 entries, and saving a cache of 201
  entries leaves 150.
\<close>

theorem cache_capacity_witness:
  "length (cache (putAll exampleWorld [(2000, 7, exampleRecord 7 ''NONE'')])) \<le> 200
   \<and> length (cache (saveCacheToStorage overfullWorld)) = 150"
  using cache_capacity [where w = exampleWorld and ps = "[(2000, 7, exampleRecord 7 ''NONE'')]" and t = 0]
    cache_capacity [where w = overfullWorld and ps = "[]" and t = 0]
  by (simp add: exampleWorld_def overfullWorld_def cacheOf_def)













lemma now_setCache [simp]: "now (setCache w i r) = now w"
  by (simp add: setCache_def saveCacheToStorage_def Let_def)














subsection \<open>The remote fetcher\<close>

lemma save_fields [simp]:
  "prData (saveCacheToStorage w) = prData w"
  "requests (saveCacheToStorage w) = requests w"
  "githubToken (saveCacheToStorage w) = githubToken w"
  "pullAnchors (saveCacheToStorage w) = pullAnchors w"
  by (simp_all add: saveCacheToStorage_def Let_def)

lemma setCache_fields [simp]:
  "prData (setCache w n d) = prData w"
  "requests (setCache w n d) = requests w"
  "githubToken (setCache w n d) = githubToken w"
  "pullAnchors (setCache w n d) = pullAnchors w"
  by (simp_all add: setCache_def)

lemma getFromCache_fields [simp]:
  "prData (snd (getFromCache w n)) = prData w"
  "requests (snd (getFromCache w n)) = requests w"
  "githubToken (snd (getFromCache w n)) = githubToken w"
  "pullAnchors (snd (getFromCache w n)) = pullAnchors w"
  by (simp_all add: getFromCache_def split: option.splits)

lemma clearExpiredCache_fields [simp]:
  "prData (clearExpiredCache w) = prData w"
  "requests (clearExpiredCache w) = requests w"
  "githubToken (clearExpiredCache w) = githubToken w"
  "pullAnchors (clearExpiredCache w) = pullAnchors w"
  by (simp_all add: clearExpiredCache_def Let_def)

lemma loadCached_requests [simp]: "requests (loadCached w ns) = requests w"
proof (induction ns arbitrary: w)
  case Nil
  show ?case by simp
next
  case (Cons n ns)
  obtain c w1 where g: "getFromCache w n = (c, w1)" by (cases "getFromCache w n")
  have r: "requests w1 = requests w" using getFromCache_fields(2) [of w n] g by simp
  show ?case using g r Cons.IH by (cases c) simp_all
qed

lemma loadCached_token [simp]: "githubToken (loadCached w ns) = githubToken w"
proof (induction ns arbitrary: w)
  case Nil
  show ?case by simp
next
  case (Cons n ns)
  obtain c w1 where g: "getFromCache w n = (c, w1)" by (cases "getFromCache w n")
  have r: "githubToken w1 = githubToken w" using getFromCache_fields(3) [of w n] g by simp
  show ?case using g r Cons.IH by (cases c) simp_all
qed

lemma loadCached_keeps: "prData w n = Some r \<Longrightarrow> prData (loadCached w ns) n = Some r"
proof (induction ns arbitrary: w)
  case Nil
  then show ?case by simp
next
  case (Cons m ns)
  obtain c w1 where g: "getFromCache w m = (c, w1)" by (cases "getFromCache w m")
  have p: "prData w1 = prData w" using getFromCache_fields(1) [of w m] g by simp
  show ?case
  proof (cases "prData w m \<noteq> None")
    case True
    then show ?thesis using Cons by simp
  next
    case False
    then have "m \<noteq> n" using Cons.prems by auto
    then show ?thesis using False g p Cons by (cases c) simp_all
  qed
qed

lemma fetchPRDetails_requests:
  "requests (snd (fetchPRDetails env w n)) = requests w @ [RestRequest n]"
  by (simp add: fetchPRDetails_def Let_def split: fetched.splits json.splits)

lemma fetchPRDetails_fields [simp]:
  "prData (snd (fetchPRDetails env w n)) = prData w"
  "githubToken (snd (fetchPRDetails env w n)) = githubToken w"
  by (simp_all add: fetchPRDetails_def Let_def split: fetched.splits json.splits)

lemma rest_invariant:
  "n \<notin> set ns \<Longrightarrow>
   prData (snd (fetchPRDataREST env w ns)) n = prData w n
   \<and> (\<exists>rs. requests (snd (fetchPRDataREST env w ns)) = requests w @ rs
           \<and> (\<forall>q \<in> set rs. \<not> asksFor n q))"
proof (induction ns arbitrary: w)
  case Nil
  then show ?case by simp
next
  case (Cons m ns)
  have mn: "m \<noteq> n" and n: "n \<notin> set ns" using Cons.prems by auto
  note ih = Cons.IH [OF n]
  obtain c w1 where g: "getFromCache w m = (c, w1)" by (cases "getFromCache w m")
  have w1: "prData w1 = prData w" "requests w1 = requests w"
    using getFromCache_fields(1,2) [of w m] g by simp_all
  show ?case
  proof (cases c)
    case (Some d)
    let ?w = "w1\<lparr>prData := (prData w1)(m \<mapsto> d)\<rparr>"
    have "fetchPRDataREST env w (m # ns) = fetchPRDataREST env ?w ns"
      using g Some by simp
    then show ?thesis using ih [of ?w] w1 mn by simp
  next
    case None
    obtain res w2 where f: "fetchPRDetails env w1 m = (res, w2)"
      by (cases "fetchPRDetails env w1 m")
    have w2: "prData w2 = prData w" "requests w2 = requests w @ [RestRequest m]"
      using fetchPRDetails_fields(1) [of env w1 m] fetchPRDetails_requests [of env w1 m] f w1
      by simp_all
    show ?thesis
    proof (cases res)
      case (Inr d)
      let ?w3 = "setCache (w2\<lparr>prData := (prData w2)(m \<mapsto> d)\<rparr>) m d"
      let ?w4 = "if \<not> tokenPresent (githubToken ?w3) then ?w3\<lparr>now := now ?w3 + 500\<rparr> else ?w3"
      have e: "fetchPRDataREST env w (m # ns) = fetchPRDataREST env ?w4 ns"
        using g None f Inr by (simp add: Let_def)
      have p4: "prData ?w4 n = prData w n" "requests ?w4 = requests w @ [RestRequest m]"
        using w2 mn by simp_all
      obtain rs where rs: "requests (snd (fetchPRDataREST env ?w4 ns)) = requests ?w4 @ rs"
        "\<forall>q \<in> set rs. \<not> asksFor n q" using ih [of ?w4] by blast
      have "requests (snd (fetchPRDataREST env ?w4 ns)) = requests w @ (RestRequest m # rs)"
        using rs(1) p4(2) by simp
      moreover have "\<forall>q \<in> set (RestRequest m # rs). \<not> asksFor n q" using rs(2) mn by simp
      ultimately show ?thesis unfolding e using ih [of ?w4] p4(1) by metis
    next
      case (Inl msg)
      show ?thesis
      proof (cases "str_includes msg ''403''")
        case True
        then have "fetchPRDataREST env w (m # ns) = (Inl rateLimitExceeded, w2)"
          using g None f Inl by simp
        moreover have "\<forall>q \<in> set [RestRequest m]. \<not> asksFor n q" using mn by simp
        ultimately show ?thesis using w2 by (metis snd_conv)
      next
        case False
        then have e: "fetchPRDataREST env w (m # ns) = fetchPRDataREST env w2 ns"
          using g None f Inl by simp
        obtain rs where rs: "requests (snd (fetchPRDataREST env w2 ns)) = requests w2 @ rs"
          "\<forall>q \<in> set rs. \<not> asksFor n q" using ih [of w2] by blast
        have "requests (snd (fetchPRDataREST env w2 ns)) = requests w @ (RestRequest m # rs)"
          using rs(1) w2(2) by simp
        moreover have "\<forall>q \<in> set (RestRequest m # rs). \<not> asksFor n q" using rs(2) mn by simp
        ultimately show ?thesis unfolding e using ih [of w2] w2(1) by metis
      qed
    qed
  qed
qed

lemma processResults_requests [simp]:
  "requests (processResults repo w i ns) = requests w"
  by (induction ns arbitrary: w i) (simp_all add: Let_def split: option.splits)

lemma processResults_keeps:
  "n \<notin> set ns \<Longrightarrow> prData (processResults repo w i ns) n = prData w n"
  by (induction ns arbitrary: w i) (auto simp: Let_def split: option.splits)

lemma graphql_failed:
  "isl (fst (fetchPRDataGraphQL env w ns)) \<Longrightarrow>
   snd (fetchPRDataGraphQL env w ns) = afterBatchRequest env w ns"
  by (auto simp: fetchPRDataGraphQL_def afterBatchRequest_def Let_def
      split: fetched.splits json.splits option.splits gql_data.splits if_splits)

lemma graphql_requests:
  "requests (snd (fetchPRDataGraphQL env w ns)) = requests w @ [GraphQLRequest ns]"
  by (auto simp: fetchPRDataGraphQL_def Let_def
      split: fetched.splits json.splits option.splits gql_data.splits)

lemma graphql_keeps:
  "n \<notin> set ns \<Longrightarrow> prData (snd (fetchPRDataGraphQL env w ns)) n = prData w n"
  by (auto simp: fetchPRDataGraphQL_def Let_def processResults_keeps
      split: fetched.splits json.splits option.splits gql_data.splits)

lemma graphql_fails_on:
  assumes "graphqlApi env (requests w) ns = Rejected msg
           \<or> (\<exists>status txt body. graphqlApi env (requests w) ns = Response status txt body
                \<and> (\<not> ok status \<or> (\<exists>res errs. body = Json res \<and> errors res = Some errs)))"
  shows "isl (fst (fetchPRDataGraphQL env w ns))"
  using assms
  by (auto simp: fetchPRDataGraphQL_def Let_def split: json.splits)

lemma afterCacheLoad_fields [simp]:
  "requests (afterCacheLoad w) = requests w"
  "githubToken (afterCacheLoad w) = githubToken w"
  by (simp_all add: afterCacheLoad_def Let_def)

lemma afterCacheLoad_keeps:
  "prData w n = Some r \<Longrightarrow> prData (afterCacheLoad w) n = Some r"
  by (simp add: afterCacheLoad_def Let_def loadCached_keeps)

lemma not_to_fetch: "prData w n = Some r \<Longrightarrow> n \<notin> set (prNumbersToFetch w)"
  by (simp add: prNumbersToFetch_def afterCacheLoad_keeps)

lemma fetchPRData_invariant:
  assumes "prData w n = Some r"
  shows "prData (snd (fetchPRData env w)) n = Some r
         \<and> (\<exists>rs. requests (snd (fetchPRData env w)) = requests w @ rs
                 \<and> (\<forall>q \<in> set rs. \<not> asksFor n q))"
proof -
  let ?w2 = "afterCacheLoad w" and ?ns = "prNumbersToFetch w"
  have n: "n \<notin> set ?ns" by (rule not_to_fetch [OF assms])
  have p2: "prData ?w2 n = Some r" by (rule afterCacheLoad_keeps [OF assms])
  have rest: "prData (snd (fetchPRDataREST env v ?ns)) n = prData v n
     \<and> (\<exists>rs. requests (snd (fetchPRDataREST env v ?ns)) = requests v @ rs
           \<and> (\<forall>q \<in> set rs. \<not> asksFor n q))" for v
    by (rule rest_invariant [OF n])
  consider (none) "length ?ns = 0"
    | (batch) "length ?ns \<noteq> 0" "tokenPresent (githubToken ?w2) \<and> length ?ns > 3"
    | (seq) "length ?ns \<noteq> 0" "\<not> (tokenPresent (githubToken ?w2) \<and> length ?ns > 3)"
    by blast
  then show ?thesis
  proof cases
    case none
    then have "fetchPRData env w = (Inr (), ?w2)" by (simp add: fetchPRData_def Let_def)
    then show ?thesis using p2 by simp
  next
    case seq
    then have "fetchPRData env w = fetchPRDataREST env ?w2 ?ns"
      by (auto simp: fetchPRData_def Let_def)
    then show ?thesis using rest [of ?w2] p2 by simp
  next
    case batch
    obtain res w3 where g: "fetchPRDataGraphQL env ?w2 ?ns = (res, w3)"
      by (cases "fetchPRDataGraphQL env ?w2 ?ns")
    have w3: "prData w3 n = Some r" "requests w3 = requests w @ [GraphQLRequest ?ns]"
      using graphql_keeps [OF n, of env ?w2] graphql_requests [of env ?w2 ?ns] g p2 by simp_all
    have q: "\<not> asksFor n (GraphQLRequest ?ns)" using n by simp
    show ?thesis
    proof (cases res)
      case (Inr u)
      then have "fetchPRData env w = (Inr u, w3)"
        using batch g by (simp add: fetchPRData_def Let_def)
      then show ?thesis using w3 q by simp
    next
      case (Inl msg)
      then have e: "fetchPRData env w = fetchPRDataREST env w3 ?ns"
        using batch g by (simp add: fetchPRData_def Let_def)
      obtain rs where rs: "requests (snd (fetchPRDataREST env w3 ?ns)) = requests w3 @ rs"
        "\<forall>q \<in> set rs. \<not> asksFor n q" using rest [of w3] by blast
      have "requests (snd (fetchPRDataREST env w3 ?ns)) = requests w @ (GraphQLRequest ?ns # rs)"
        using rs(1) w3(2) by simp
      moreover have "\<forall>q \<in> set (GraphQLRequest ?ns # rs). \<not> asksFor n q" using rs(2) q by simp
      ultimately show ?thesis unfolding e using rest [of w3] w3(1) by metis
    qed
  qed
qed

text \<open>
  Claim C10. A pull request whose record is in \<open>prData\<close> when \<open>fetchPRData\<close> starts keeps that
  record, and none of the requests \<open>fetchPRData\<close> issues (the log only grows) asks for it,
  neither a REST request nor a sub-query of the GraphQL request. Nothing is assumed of the
  cache: its entry for the pull request may have expired or be gone.
\<close>

theorem known_record_not_fetched:
  assumes "prData w n = Some r"
  shows "prData (snd (fetchPRData env w)) n = Some r
         \<and> take (length (requests w)) (requests (snd (fetchPRData env w))) = requests w
         \<and> (\<forall>q \<in> set (issued w (snd (fetchPRData env w))). \<not> asksFor n q)"
proof -
  obtain rs where rs: "requests (snd (fetchPRData env w)) = requests w @ rs"
    "\<forall>q \<in> set rs. \<not> asksFor n q"
    using fetchPRData_invariant [OF assms, of env] by blast
  have "issued w (snd (fetchPRData env w)) = rs" by (simp add: issued_def rs(1))
  then show ?thesis using fetchPRData_invariant [OF assms, of env] rs by simp
qed

text \<open>
  Claim C7. With a token and more than three pull requests to fetch, \<open>fetchPRData\<close> tries the
  batch. The batch fails when \<open>fetch\<close> rejects, when the status is not ok or when the result
  has \<open>errors\<close>. Whenever it fails, it has changed neither \<open>prData\<close> nor the cache nor the stored
  snapshot (only the request log and the clock), and \<open>fetchPRData\<close> is the sequential fetch
  over the same list of pull requests.
\<close>

theorem batch_failure_falls_back:
  assumes "tokenPresent (githubToken w)" and "3 < length (prNumbersToFetch w)"
  shows
    "((graphqlApi env (requests w) (prNumbersToFetch w) = Rejected msg
        \<or> (\<exists>status txt body.
              graphqlApi env (requests w) (prNumbersToFetch w) = Response status txt body
              \<and> (\<not> ok status \<or> (\<exists>res errs. body = Json res \<and> errors res = Some errs))))
       \<longrightarrow> isl (fst (fetchPRDataGraphQL env (afterCacheLoad w) (prNumbersToFetch w))))
     \<and> (isl (fst (fetchPRDataGraphQL env (afterCacheLoad w) (prNumbersToFetch w))) \<longrightarrow>
          prData (snd (fetchPRDataGraphQL env (afterCacheLoad w) (prNumbersToFetch w)))
            = prData (afterCacheLoad w)
          \<and> cache (snd (fetchPRDataGraphQL env (afterCacheLoad w) (prNumbersToFetch w)))
            = cache (afterCacheLoad w)
          \<and> storedCache (snd (fetchPRDataGraphQL env (afterCacheLoad w) (prNumbersToFetch w)))
            = storedCache (afterCacheLoad w)
          \<and> fetchPRData env w =
              fetchPRDataREST env (afterBatchRequest env (afterCacheLoad w) (prNumbersToFetch w))
                (prNumbersToFetch w))"
proof -
  let ?w2 = "afterCacheLoad w" and ?ns = "prNumbersToFetch w"
  have a: "isl (fst (fetchPRDataGraphQL env ?w2 ?ns))"
    if "graphqlApi env (requests w) ?ns = Rejected msg
        \<or> (\<exists>status txt body. graphqlApi env (requests w) ?ns = Response status txt body
              \<and> (\<not> ok status \<or> (\<exists>res errs. body = Json res \<and> errors res = Some errs)))"
    by (rule graphql_fails_on) (use that in simp)
  have b: "prData (snd (fetchPRDataGraphQL env ?w2 ?ns)) = prData ?w2
          \<and> cache (snd (fetchPRDataGraphQL env ?w2 ?ns)) = cache ?w2
          \<and> storedCache (snd (fetchPRDataGraphQL env ?w2 ?ns)) = storedCache ?w2
          \<and> fetchPRData env w = fetchPRDataREST env (afterBatchRequest env ?w2 ?ns) ?ns"
    if f: "isl (fst (fetchPRDataGraphQL env ?w2 ?ns))"
  proof -
    have s: "snd (fetchPRDataGraphQL env ?w2 ?ns) = afterBatchRequest env ?w2 ?ns"
      by (rule graphql_failed [OF f])
    obtain e where e: "fst (fetchPRDataGraphQL env ?w2 ?ns) = Inl e"
      using f by (cases "fst (fetchPRDataGraphQL env ?w2 ?ns)") auto
    have g: "fetchPRDataGraphQL env ?w2 ?ns = (Inl e, afterBatchRequest env ?w2 ?ns)"
      using s e by (metis prod.collapse)
    have "fetchPRData env w = fetchPRDataREST env (afterBatchRequest env ?w2 ?ns) ?ns"
      using assms g by (auto simp: fetchPRData_def Let_def)
    then show ?thesis unfolding s by (simp add: afterBatchRequest_def)
  qed
  show ?thesis using a b by blast
qed

text \<open>
  On the listing of four rows the records of 1, 3 and 4 are known: only pull request 2 is
  requested.
\<close>

theorem known_record_not_fetched_witness:
  "prData (snd (fetchPRData exampleRemote exampleWorld)) 1 = Some (exampleRecord 1 ''MEMBER'')
   \<and> issued exampleWorld (snd (fetchPRData exampleRemote exampleWorld)) = [RestRequest 2]"
proof -
  have h: "prData exampleWorld 1 = Some (exampleRecord 1 ''MEMBER'')"
    by (simp add: exampleWorld_def)
  have e: "issued exampleWorld (snd (fetchPRData exampleRemote exampleWorld)) = [RestRequest 2]"
    by code_simp
  show ?thesis using known_record_not_fetched [OF h, of exampleRemote] e by simp
qed

text \<open>
  With a token, nothing known and a GraphQL endpoint that cannot be reached, the four pull
  requests are fetched one by one after the batch request.
\<close>

theorem batch_failure_falls_back_witness:
  "isl (fst (fetchPRDataGraphQL exampleRemote (afterCacheLoad batchWorld) (prNumbersToFetch batchWorld)))
   \<and> fetchPRData exampleRemote batchWorld =
       fetchPRDataREST exampleRemote
         (afterBatchRequest exampleRemote (afterCacheLoad batchWorld) (prNumbersToFetch batchWorld))
         (prNumbersToFetch batchWorld)
   \<and> requests (snd (fetchPRData exampleRemote batchWorld)) =
       [GraphQLRequest [1, 2, 3, 4], RestRequest 1, RestRequest 2, RestRequest 3, RestRequest 4]"
proof -
  have t: "tokenPresent (githubToken batchWorld)"
    by (simp add: batchWorld_def tokenPresent_def)
  have l: "3 < length (prNumbersToFetch batchWorld)" by code_simp
  have r: "graphqlApi exampleRemote (requests batchWorld) (prNumbersToFetch batchWorld)
           = Rejected ''Failed to fetch''"
    by (simp add: exampleRemote_def)
  have e: "requests (snd (fetchPRData exampleRemote batchWorld)) =
       [GraphQLRequest [1, 2, 3, 4], RestRequest 1, RestRequest 2, RestRequest 3, RestRequest 4]"
    by code_simp
  show ?thesis
    using batch_failure_falls_back [OF t l, of exampleRemote "''Failed to fetch''"] r e by simp
qed

text \<open>
  The two branches of the \<open>catch\<close> in \<open>fetchPRDataREST\<close>: a response with status 403 stops the
  loop with the rate-limit error, leaving what was fetched before in place, and a failure whose
  message has no \<open>403\<close> in it is skipped.
\<close>

lemma rest_403_aborts:
  assumes "getFromCache w n = (None, w1)"
    and "restApi env (requests w1) n = Response 403 txt body"
  shows "fetchPRDataREST env w (n # rest) =
         (Inl rateLimitExceeded,
          w1\<lparr>requests := requests w1 @ [RestRequest n], now := now w1 + restLatency env n\<rparr>)"
proof -
  have "str_includes rateLimitDetail ''403''" by (simp add: rateLimitDetail_def)
  then show ?thesis using assms by (simp add: fetchPRDetails_def Let_def ok_def)
qed

lemma rest_failure_continues:
  assumes "getFromCache w n = (None, w1)"
    and "fetchPRDetails env w1 n = (Inl msg, w2)"
    and "\<not> str_includes msg ''403''"
  shows "fetchPRDataREST env w (n # rest) = fetchPRDataREST env w2 rest"
  using assms by simp

text \<open>
  Claim C4 holds for failures whose message has no \<open>403\<close> in it, but the code tells a rate limit
  by \<open>error.message.includes('403')\<close>. Without a token and with nothing cached, a gateway answers
  the request for pull request 2 with status 502 and the status text
  \<open>Bad Gateway (upstream 403)\<close>: the loop does not go on to pull requests 3 and 4 but stops and
  reports a rate limit. The record of pull request 1, fetched before, stays cached.
\<close>

theorem fetch_aborts_on_502:
  "restApi gatewayRemote [RestRequest 1] 2 =
     Response 502 ''Bad Gateway (upstream 403)'' (JsonError ''Unexpected end of JSON input'')
   \<and> fst (fetchPRData gatewayRemote noDataWorld) = Inl rateLimitExceeded
   \<and> requests (snd (fetchPRData gatewayRemote noDataWorld)) = [RestRequest 1, RestRequest 2]
   \<and> prData (snd (fetchPRData gatewayRemote noDataWorld)) 3 = None
   \<and> map fst (cache (snd (fetchPRData gatewayRemote noDataWorld))) = [1]"
  by code_simp

subsection \<open>The trigger\<close>

lemma restoreDefaultOrder_fields [simp]:
  "requests (restoreDefaultOrder w) = requests w"
  "prData (restoreDefaultOrder w) = prData w"
  "cache (restoreDefaultOrder w) = cache w"
  by (simp_all add: restoreDefaultOrder_def split: option.splits)

lemma saveSortPreference_fields [simp]:
  "requests (saveSortPreference w) = requests w"
  "prData (saveSortPreference w) = prData w"
  "cache (saveSortPreference w) = cache w"
  "prContainer (saveSortPreference w) = prContainer w"
  by (simp_all add: saveSortPreference_def)



end
